theory Spec2Isabelle
  imports Complex_Main
begin

section \<open>Prepaid electricity life estimator: the numerical core\<close>

text \<open>
  The four numerical routines of \<^verbatim>\<open>Prepaid_Electricity_Life_Estimator.py\<close> and the
  module-level pipeline that composes them. Python's \<^verbatim>\<open>float\<close> is read as
  \<^typ>\<open>real\<close>: every arithmetic operation is exact, so rounding error, overflow to
  infinity and NaN are outside the development. Exceptions are values of
  \<^typ>\<open>'e + 'a\<close> with \<open>Inl\<close> for the exception.
\<close>

subsection \<open>Exceptions and module constants\<close>

datatype py_error = IndexError | ZeroDivisionError | ValueError

type_synonym 'a result = "py_error + 'a"

type_synonym appliance = "string \<times> real \<times> real"

definition BALANCE_GHS :: real where
  "BALANCE_GHS = 50"

definition COST_PER_KWH :: real where
  "COST_PER_KWH = 16 / 10"

definition APPLIANCES :: "appliance list" where
  "APPLIANCES = [(''Fan'', 70, 8), (''Fridge'', 200, 24), (''Bulb'', 10, 6), (''TV'', 100, 5)]"

definition HISTORICAL_DAYS :: "real list" where
  "HISTORICAL_DAYS = [1, 2, 3, 4, 5]"

definition HISTORICAL_USAGE :: "real list" where
  "HISTORICAL_USAGE = [58 / 10, 6, 61 / 10, 63 / 10, 64 / 10]"

text \<open>The slice \<^verbatim>\<open>xs[-3:]\<close>: the last three elements, or all of a shorter list.\<close>

definition last3 :: "'a list \<Rightarrow> 'a list" where
  "last3 xs = drop (length xs - 3) xs"

definition x_used :: "real list" where
  "x_used = last3 HISTORICAL_DAYS"

definition y_used :: "real list" where
  "y_used = last3 HISTORICAL_USAGE"

subsection \<open>Method 1: daily energy of the appliances\<close>

text \<open>
  \<^verbatim>\<open>sum((power * hours) / 1000 for _, power, hours in appliances)\<close>: Python's
  \<^verbatim>\<open>sum\<close> starts at 0 and adds the terms from left to right. The arguments are
  annotated \<^verbatim>\<open>float\<close>, and on floats neither the product nor the division by 1000
  raises; the function itself has no check and no \<^verbatim>\<open>raise\<close>. (Python raises
  \<^verbatim>\<open>OverflowError\<close> when it divides an \<^verbatim>\<open>int\<close> too large for a float; numbers
  of that size are outside this reading, as infinities are.)
\<close>

definition kwh_term :: "appliance \<Rightarrow> real" where
  "kwh_term ap = (case ap of (_, watts, hours) \<Rightarrow> (watts * hours) / 1000)"

definition compute_daily_kwh :: "appliance list \<Rightarrow> real result" where
  "compute_daily_kwh appliances = Inr (foldl (+) 0 (map kwh_term appliances))"

subsection \<open>Method 2: Newton's divided differences\<close>

text \<open>
  The body of the inner loop of \<^verbatim>\<open>newton_divided_diff\<close>:
  \<^verbatim>\<open>coef[i] = (coef[i] - coef[i - 1]) / (x[i] - x[i - j])\<close>. Reading \<^verbatim>\<open>coef[i]\<close>
  or \<^verbatim>\<open>x[i]\<close> out of range raises \<^verbatim>\<open>IndexError\<close>, a zero divisor raises
  \<^verbatim>\<open>ZeroDivisionError\<close>. The loops only call it with \<open>1 \<le> j \<le> i\<close>, so
  \<open>i - 1\<close> and \<open>i - j\<close> are never negative.
\<close>

definition dd_update :: "real list \<Rightarrow> nat \<Rightarrow> nat \<Rightarrow> real list \<Rightarrow> real list result" where
  "dd_update x j i coef =
     (if \<not> (i < length coef) then Inl IndexError
      else if \<not> (i < length x) then Inl IndexError
      else if x ! i - x ! (i - j) = 0 then Inl ZeroDivisionError
      else Inr (coef[i := (coef ! i - coef ! (i - 1)) / (x ! i - x ! (i - j))]))"

text \<open>
  \<^verbatim>\<open>for i in range(n - 1, j - 1, -1)\<close> runs over \<open>rev [j..<n]\<close>, and
  \<^verbatim>\<open>for j in range(1, n)\<close> over \<open>[1..<n]\<close>, with \<open>n = len(x)\<close>; the table starts as
  a copy of \<open>y\<close>.
\<close>

fun dd_inner :: "real list \<Rightarrow> nat \<Rightarrow> nat list \<Rightarrow> real list \<Rightarrow> real list result" where
  "dd_inner x j [] coef = Inr coef"
| "dd_inner x j (i # is) coef =
     (case dd_update x j i coef of Inl e \<Rightarrow> Inl e | Inr coef' \<Rightarrow> dd_inner x j is coef')"

fun dd_outer :: "real list \<Rightarrow> nat list \<Rightarrow> real list \<Rightarrow> real list result" where
  "dd_outer x [] coef = Inr coef"
| "dd_outer x (j # js) coef =
     (case dd_inner x j (rev [j..<length x]) coef of
        Inl e \<Rightarrow> Inl e | Inr coef' \<Rightarrow> dd_outer x js coef')"

definition newton_divided_diff :: "real list \<Rightarrow> real list \<Rightarrow> real list result" where
  "newton_divided_diff x y = dd_outer x [1..<length x] y"

text \<open>
  The evaluation loop of \<^verbatim>\<open>newton_interpolation\<close>,
  \<^verbatim>\<open>for i in range(n - 2, -1, -1): result = result * (target_x - x_data[i]) + coef[i]\<close>
  with \<open>n = len(coef)\<close>, started from \<^verbatim>\<open>coef[-1]\<close>, which raises on an empty list.
  \<open>newton_eval\<close> is the value of \<^verbatim>\<open>result\<close> when the loop ends, in exact
  arithmetic; the program's value can differ from it by rounding error in the last digits.
\<close>

fun horner_loop :: "real list \<Rightarrow> real list \<Rightarrow> real \<Rightarrow> nat list \<Rightarrow> real \<Rightarrow> real result" where
  "horner_loop coef x_data target_x [] result = Inr result"
| "horner_loop coef x_data target_x (i # is) result =
     (if \<not> (i < length x_data) then Inl IndexError
      else if \<not> (i < length coef) then Inl IndexError
      else horner_loop coef x_data target_x is (result * (target_x - x_data ! i) + coef ! i))"

definition newton_eval :: "real list \<Rightarrow> real list \<Rightarrow> real \<Rightarrow> real result" where
  "newton_eval x_data y_data target_x =
     (case newton_divided_diff x_data y_data of
        Inl e \<Rightarrow> Inl e
      | Inr coef \<Rightarrow>
          if coef = [] then Inl IndexError
          else horner_loop coef x_data target_x (rev [0..<length coef - 1]) (last coef))"

text \<open>
  \<^verbatim>\<open>round(v, 2)\<close>: Python rounds to the nearest multiple of 0.01, a tie going to
  the even digit; here the tie is decided on the exact real value, where the program
  decides it on a value that may be off in the last digits. The function returns
  \<^verbatim>\<open>max(0, round(result, 2))\<close>.
\<close>

definition round_half_even :: "real \<Rightarrow> int" where
  "round_half_even v =
     (let fl = \<lfloor>v\<rfloor>; fr = v - of_int fl
      in if fr < 1 / 2 then fl else if 1 / 2 < fr then fl + 1
         else if even fl then fl else fl + 1)"

definition py_round :: "real \<Rightarrow> nat \<Rightarrow> real" where
  "py_round v ndigits = of_int (round_half_even (v * 10 ^ ndigits)) / 10 ^ ndigits"

definition newton_interpolation :: "real list \<Rightarrow> real list \<Rightarrow> real \<Rightarrow> real result" where
  "newton_interpolation x_data y_data target_x =
     (case newton_eval x_data y_data target_x of
        Inl e \<Rightarrow> Inl e
      | Inr result \<Rightarrow> Inr (max 0 (py_round result 2)))"

text \<open>
  \<^verbatim>\<open>forecasted_usage = [newton_interpolation(x_used, y_used, d) for d in range(6, 11)]\<close>:
  the first exception ends the comprehension.
\<close>

fun collect :: "'a result list \<Rightarrow> 'a list result" where
  "collect [] = Inr []"
| "collect (r # rs) =
     (case r of Inl e \<Rightarrow> Inl e
      | Inr v \<Rightarrow> (case collect rs of Inl e \<Rightarrow> Inl e | Inr vs \<Rightarrow> Inr (v # vs)))"

definition forecasted_usage :: "real list result" where
  "forecasted_usage =
     collect (map (\<lambda>d. newton_interpolation x_used y_used (real d)) [6..<11])"

subsection \<open>Method 3: bisection for the day the balance runs out\<close>

text \<open>
  The \<^verbatim>\<open>while b - a > tol\<close> loop of \<^verbatim>\<open>estimate_days_remaining\<close> with
  \<^verbatim>\<open>tol = 0.01\<close>; the state is the bracket \<open>(a, b)\<close>, and the loop returns the
  final bracket. The bracket halves in every iteration, which is the termination
  argument.
\<close>

lemma ceiling_halve:
  assumes "(1::real) < x"
  shows "nat \<lceil>x / 2\<rceil> < nat \<lceil>x\<rceil>"
proof -
  define k where "k = \<lceil>x\<rceil>"
  have k2: "2 \<le> k" unfolding k_def using assms by linarith
  have "x \<le> of_int k" unfolding k_def by linarith
  moreover have "of_int k \<le> 2 * (of_int ((k + 1) div 2) :: real)"
  proof -
    have "k \<le> 2 * ((k + 1) div 2)" by presburger
    then have "(of_int k :: real) \<le> of_int (2 * ((k + 1) div 2))" by (rule of_int_le_iff[THEN iffD2])
    then show ?thesis by simp
  qed
  ultimately have "x / 2 \<le> of_int ((k + 1) div 2)" by linarith
  then have "\<lceil>x / 2\<rceil> \<le> (k + 1) div 2" by (simp add: ceiling_le_iff)
  moreover have "(k + 1) div 2 < k" using k2 by presburger
  ultimately show ?thesis using k2 unfolding k_def by linarith
qed

lemma half_bracket_smaller:
  assumes "1 / 100 < (w::real)" and "h = w / 2"
  shows "nat \<lceil>h * 100\<rceil> < nat \<lceil>w * 100\<rceil>"
proof -
  from assms(1) have "1 < w * 100" by simp
  from ceiling_halve[OF this] show ?thesis by (simp add: assms(2))
qed

function bisect_loop :: "(real \<Rightarrow> real) \<Rightarrow> real \<Rightarrow> real \<Rightarrow> real \<times> real" where
  "bisect_loop f a b =
     (if b - a > 1 / 100 then
        (let mid = (a + b) / 2 in
         if f mid * f a < 0 then bisect_loop f a mid else bisect_loop f mid b)
      else (a, b))"
  by pat_completeness auto
termination
proof (relation "measure (\<lambda>(f, a, b). nat \<lceil>(b - a) * 100\<rceil>)", goal_cases)
  case 1
  show ?case by simp
next
  case (2 f a b mid)
  then have "nat \<lceil>(mid - a) * 100\<rceil> < nat \<lceil>(b - a) * 100\<rceil>"
    by (intro half_bracket_smaller) (simp_all add: field_simps)
  then show ?case by simp
next
  case (3 f a b mid)
  then have "nat \<lceil>(b - mid) * 100\<rceil> < nat \<lceil>(b - a) * 100\<rceil>"
    by (intro half_bracket_smaller) (simp_all add: field_simps)
  then show ?case by simp
qed

declare bisect_loop.simps [simp del]

text \<open>
  \<^verbatim>\<open>f(t) = balance_ghs - daily_cost_func(t)\<close>, the bracket starts as
  \<open>(0, max_days)\<close>, and the result is the midpoint of the final bracket. The default
  \<^verbatim>\<open>max_days=30\<close> is passed explicitly by the callers below.
\<close>

definition estimate_days_remaining :: "real \<Rightarrow> (real \<Rightarrow> real) \<Rightarrow> real \<Rightarrow> real" where
  "estimate_days_remaining balance_ghs daily_cost_func max_days =
     (case bisect_loop (\<lambda>t. balance_ghs - daily_cost_func t) 0 max_days of
        (a, b) \<Rightarrow> (a + b) / 2)"

text \<open>The number of iterations the same loop makes: same guard, same branches.\<close>

function bisect_iters :: "(real \<Rightarrow> real) \<Rightarrow> real \<Rightarrow> real \<Rightarrow> nat" where
  "bisect_iters f a b =
     (if b - a > 1 / 100 then
        (let mid = (a + b) / 2 in
         if f mid * f a < 0 then Suc (bisect_iters f a mid) else Suc (bisect_iters f mid b))
      else 0)"
  by pat_completeness auto
termination
proof (relation "measure (\<lambda>(f, a, b). nat \<lceil>(b - a) * 100\<rceil>)", goal_cases)
  case 1
  show ?case by simp
next
  case (2 f a b mid)
  then have "nat \<lceil>(mid - a) * 100\<rceil> < nat \<lceil>(b - a) * 100\<rceil>"
    by (intro half_bracket_smaller) (simp_all add: field_simps)
  then show ?case by simp
next
  case (3 f a b mid)
  then have "nat \<lceil>(b - mid) * 100\<rceil> < nat \<lceil>(b - a) * 100\<rceil>"
    by (intro half_bracket_smaller) (simp_all add: field_simps)
  then show ?case by simp
qed

declare bisect_iters.simps [simp del]

subsection \<open>Method 4: golden-section search\<close>

text \<open>
  The tolerance is a parameter of \<^verbatim>\<open>golden_section_search\<close>, and with a tolerance
  that is not positive the loop need not stop: the loop is a partial function, and
  \<open>None\<close> stands for a run that never returns. The loop state is \<open>(a, b, c, d)\<close>.
\<close>

definition gr :: real where
  "gr = (sqrt 5 + 1) / 2"

partial_function (option) gss_loop ::
  "(real \<Rightarrow> real) \<Rightarrow> real \<Rightarrow> real \<Rightarrow> real \<Rightarrow> real \<Rightarrow> real \<Rightarrow> (real \<times> real) option" where
  "gss_loop f tol a b c d =
     (if \<bar>c - d\<bar> > tol then
        (if f c < f d then gss_loop f tol a d (d - (d - a) / gr) (a + (d - a) / gr)
         else gss_loop f tol c b (b - (b - c) / gr) (c + (b - c) / gr))
      else Some (a, b))"

definition golden_section_search :: "(real \<Rightarrow> real) \<Rightarrow> real \<Rightarrow> real \<Rightarrow> real \<Rightarrow> real option" where
  "golden_section_search f a b tol =
     (case gss_loop f tol a b (b - (b - a) / gr) (a + (b - a) / gr) of
        None \<Rightarrow> None
      | Some (a', b') \<Rightarrow> Some ((b' + a') / 2))"

subsection \<open>The module-level pipeline\<close>

definition daily_kwh :: "real result" where
  "daily_kwh = compute_daily_kwh APPLIANCES"

definition daily_cost :: "real result" where
  "daily_cost = (case daily_kwh of Inl e \<Rightarrow> Inl e | Inr k \<Rightarrow> Inr (k * COST_PER_KWH))"

text \<open>
  \<^verbatim>\<open>cumulative_cost(t) = daily_cost * t\<close> reads the global \<^verbatim>\<open>daily_cost\<close>;
  here the daily cost is its first argument.
\<close>

definition cumulative_cost :: "real \<Rightarrow> real \<Rightarrow> real" where
  "cumulative_cost dc t = dc * t"

definition estimated_days :: "real result" where
  "estimated_days =
     (case daily_cost of Inl e \<Rightarrow> Inl e
      | Inr dc \<Rightarrow> Inr (estimate_days_remaining BALANCE_GHS (cumulative_cost dc) 30))"

text \<open>A result that is a value within \<open>tol\<close> of \<open>v\<close>.\<close>

definition near :: "real result \<Rightarrow> real \<Rightarrow> real \<Rightarrow> bool" where
  "near r v tol = (case r of Inl _ \<Rightarrow> False | Inr x \<Rightarrow> \<bar>x - v\<bar> \<le> tol)"

text \<open>
  The points a bisection of \<open>[0, m]\<close> can visit: \<open>m * j / 2 ^ n\<close>.
\<close>

definition dyadic_point :: "real \<Rightarrow> real \<Rightarrow> bool" where
  "dyadic_point m t = (\<exists>(j::nat) (n::nat). t = m * real j / 2 ^ n)"

section \<open>Properties\<close>

subsection \<open>The aggregator\<close>

lemma foldl_plus_sum_list: "foldl (+) (acc :: real) ts = acc + sum_list ts"
  by (induction ts arbitrary: acc) simp_all

lemma sum_list_kwh_term:
  "sum_list (map kwh_term aps) = (\<Sum>(n, p, h)\<leftarrow>aps. p * h) / 1000"
  by (induction aps) (auto simp: kwh_term_def add_divide_distrib)

text \<open>
  Claim C1. For every sequence of appliances, \<open>compute_daily_kwh\<close> returns the sum over
  all entries of power times hours divided by 1000 (equivalently, the sum of the products
  divided by 1000), and it returns 0 for the empty sequence.
\<close>

theorem compute_daily_kwh_sum:
  "compute_daily_kwh aps = Inr (\<Sum>(n, p, h)\<leftarrow>aps. p * h / 1000)
   \<and> compute_daily_kwh aps = Inr ((\<Sum>(n, p, h)\<leftarrow>aps. p * h) / 1000)
   \<and> compute_daily_kwh [] = Inr 0"
proof -
  have "(\<Sum>(n, p, h)\<leftarrow>aps. p * h / 1000) = sum_list (map kwh_term aps)"
    by (induction aps) (auto simp: kwh_term_def)
  then show ?thesis
    by (simp add: compute_daily_kwh_def foldl_plus_sum_list sum_list_kwh_term)
qed

text \<open>
  Claim C8, as the code behaves. \<open>compute_daily_kwh\<close> validates nothing: for every list of
  appliances with real power and hours, negative ones included, it returns the sum of the
  products divided by 1000, and an entry whose product is negative is accepted and lowers
  the total.
\<close>

theorem compute_daily_kwh_no_validation:
  "compute_daily_kwh aps = Inr (\<Sum>(n, p, h)\<leftarrow>aps. p * h / 1000)
   \<and> compute_daily_kwh (aps @ [(name, watts, hours)])
       = Inr ((\<Sum>(n, p, h)\<leftarrow>aps. p * h / 1000) + watts * hours / 1000)
   \<and> (watts * hours < 0 \<longrightarrow>
        (\<exists>v v'. compute_daily_kwh aps = Inr v
           \<and> compute_daily_kwh (aps @ [(name, watts, hours)]) = Inr v' \<and> v' < v))"
proof -
  have s: "sum_list (map kwh_term bs) = (\<Sum>(n, p, h)\<leftarrow>bs. p * h / 1000)" for bs
    by (induction bs) (auto simp: kwh_term_def)
  have 1: "compute_daily_kwh aps = Inr (\<Sum>(n, p, h)\<leftarrow>aps. p * h / 1000)"
    by (simp add: compute_daily_kwh_def foldl_plus_sum_list s)
  have 2: "compute_daily_kwh (aps @ [(name, watts, hours)])
       = Inr ((\<Sum>(n, p, h)\<leftarrow>aps. p * h / 1000) + watts * hours / 1000)"
    by (simp add: compute_daily_kwh_def foldl_plus_sum_list s kwh_term_def)
  have 3: "\<exists>v v'. compute_daily_kwh aps = Inr v
           \<and> compute_daily_kwh (aps @ [(name, watts, hours)]) = Inr v' \<and> v' < v"
    if "watts * hours < 0"
    using that unfolding 1 2 by simp
  from 1 2 3 show ?thesis by blast
qed

theorem compute_daily_kwh_no_validation_witness:
  "(- 100 :: real) * 5 < 0
   \<and> compute_daily_kwh [(''Fan'', 70, 8)] = Inr (14 / 25)
   \<and> compute_daily_kwh ([(''Fan'', 70, 8)] @ [(''Heater'', - 100, 5)]) = Inr (3 / 50)"
  using compute_daily_kwh_no_validation[of "[(''Fan'', 70, 8)]" "''Heater''" "- 100" 5]
  by simp

text \<open>
  Claim C8 as stated fails: an appliance with power \<open>-100\<close> is accepted, and the result
  is \<open>-0.5\<close> rather than an error.
\<close>

theorem compute_daily_kwh_negative_accepted:
  "compute_daily_kwh [(''Heater'', - 100, 5)] = Inr (- 1 / 2)
   \<and> compute_daily_kwh [(''Heater'', - 100, 5)] \<noteq> Inl ValueError"
  by (simp add: compute_daily_kwh_def kwh_term_def)

subsection \<open>Newton interpolation: the table and the polynomial\<close>

text \<open>
  \<open>divdiff x y j i\<close> is the divided difference of order \<open>j\<close> on the nodes
  \<open>x\<^sub>i\<^sub>-\<^sub>j, \<dots>, x\<^sub>i\<close>. \<open>dd_table x y j i\<close> is the table while the pass of order \<open>j + 1\<close>
  runs: the entries from index \<open>i\<close> on have been updated, the entries below have not.
  \<open>newton_form x y t a m\<close> is Newton's form on the \<open>m\<close> nodes from index \<open>a\<close>,
  evaluated at \<open>t\<close>.
\<close>

fun divdiff :: "real list \<Rightarrow> real list \<Rightarrow> nat \<Rightarrow> nat \<Rightarrow> real" where
  "divdiff x y 0 i = y ! i"
| "divdiff x y (Suc j) i =
     (divdiff x y j i - divdiff x y j (i - 1)) / (x ! i - x ! (i - Suc j))"

definition dd_table :: "real list \<Rightarrow> real list \<Rightarrow> nat \<Rightarrow> nat \<Rightarrow> real list" where
  "dd_table x y j i =
     map (\<lambda>k. divdiff x y (if i \<le> k then min k (Suc j) else min k j) k) [0..<length x]"

definition newton_form :: "real list \<Rightarrow> real list \<Rightarrow> real \<Rightarrow> nat \<Rightarrow> nat \<Rightarrow> real" where
  "newton_form x y t a m = (\<Sum>k<m. divdiff x y k (a + k) * (\<Prod>l<k. t - x ! (a + l)))"

lemma length_dd_table: "length (dd_table x y j i) = length x"
  by (simp add: dd_table_def)

lemma nth_dd_table:
  "k < length x \<Longrightarrow>
   dd_table x y j i ! k = divdiff x y (if i \<le> k then min k (Suc j) else min k j) k"
  by (simp add: dd_table_def)

lemma dd_update_table:
  assumes "distinct x" and "Suc j \<le> i" and "i < length x"
  shows "dd_update x (Suc j) i (dd_table x y j (Suc i)) = Inr (dd_table x y j i)"
proof -
  have ne: "x ! i \<noteq> x ! (i - Suc j)"
    using assms by (simp add: nth_eq_iff_index_eq)
  have ci: "dd_table x y j (Suc i) ! i = divdiff x y j i"
    using assms by (simp add: nth_dd_table min_def)
  have ci1: "dd_table x y j (Suc i) ! (i - 1) = divdiff x y j (i - 1)"
  proof -
    have "i - 1 < length x" "\<not> Suc i \<le> i - 1" "min (i - 1) j = j" using assms by simp_all
    then show ?thesis by (simp only: nth_dd_table if_False)
  qed
  have "(dd_table x y j (Suc i))[i := divdiff x y (Suc j) i] = dd_table x y j i"
  proof (rule nth_equalityI)
    show "length ((dd_table x y j (Suc i))[i := divdiff x y (Suc j) i]) = length (dd_table x y j i)"
      by (simp add: length_dd_table)
  next
    fix k assume "k < length ((dd_table x y j (Suc i))[i := divdiff x y (Suc j) i])"
    then have k: "k < length x" by (simp add: length_dd_table)
    show "(dd_table x y j (Suc i))[i := divdiff x y (Suc j) i] ! k = dd_table x y j i ! k"
    proof (cases "k = i")
      case True
      with assms show ?thesis by (simp add: nth_dd_table length_dd_table min_def)
    next
      case False
      with k show ?thesis by (auto simp: nth_dd_table)
    qed
  qed
  with ne ci ci1 assms(3) show ?thesis
    by (simp add: dd_update_def length_dd_table)
qed

lemma dd_inner_table:
  assumes "distinct x"
  shows "Suc j \<le> m \<Longrightarrow> m \<le> length x \<Longrightarrow>
    dd_inner x (Suc j) (rev [Suc j..<m]) (dd_table x y j m) = Inr (dd_table x y j (Suc j))"
proof (induction m rule: dec_induct)
  case base
  show ?case by simp
next
  case (step m)
  then have "dd_update x (Suc j) m (dd_table x y j (Suc m)) = Inr (dd_table x y j m)"
    using assms by (intro dd_update_table) simp_all
  with step show ?case by simp
qed

lemma dd_table_next: "dd_table x y j (Suc j) = dd_table x y (Suc j) (length x)"
  by (auto simp: dd_table_def min_def)

lemma dd_outer_table:
  assumes "distinct x"
  shows "dd_outer x [Suc j..<length x] (dd_table x y j (length x))
    = Inr (map (\<lambda>k. divdiff x y k k) [0..<length x])"
proof (induction "length x - Suc j" arbitrary: j)
  case 0
  then have e: "[Suc j..<length x] = []" by simp
  have t: "dd_table x y j (length x) = map (\<lambda>k. divdiff x y k k) [0..<length x]"
    using 0 by (auto simp: dd_table_def min_def)
  show ?case by (simp only: e t dd_outer.simps)
next
  case (Suc d)
  then have lt: "Suc j < length x" by simp
  then have "[Suc j..<length x] = Suc j # [Suc (Suc j)..<length x]" by (simp add: upt_conv_Cons)
  moreover have "dd_inner x (Suc j) (rev [Suc j..<length x]) (dd_table x y j (length x))
      = Inr (dd_table x y (Suc j) (length x))"
    using dd_inner_table[OF assms, of j "length x" y] lt by (simp add: dd_table_next)
  moreover have "dd_outer x [Suc (Suc j)..<length x] (dd_table x y (Suc j) (length x))
      = Inr (map (\<lambda>k. divdiff x y k k) [0..<length x])"
    using Suc by (intro Suc.hyps(1)) simp
  ultimately show ?case by simp
qed

lemma newton_divided_diff_table:
  assumes "distinct x" and "length y = length x"
  shows "newton_divided_diff x y = Inr (map (\<lambda>k. divdiff x y k k) [0..<length x])"
proof -
  have "dd_table x y 0 (length x) = y"
    using assms(2) by (auto simp: dd_table_def intro!: nth_equalityI)
  with dd_outer_table[OF assms(1), of 0 y] show ?thesis
    by (simp add: newton_divided_diff_def)
qed

lemma horner_loop_sum:
  "m \<le> length x \<Longrightarrow> m \<le> length coef \<Longrightarrow>
   horner_loop coef x t (rev [0..<m]) acc
     = Inr ((\<Sum>k<m. coef ! k * (\<Prod>l<k. t - x ! l)) + acc * (\<Prod>l<m. t - x ! l))"
proof (induction m arbitrary: acc)
  case 0
  show ?case by simp
next
  case (Suc m)
  then have "horner_loop coef x t (rev [0..<Suc m]) acc
      = horner_loop coef x t (rev [0..<m]) (acc * (t - x ! m) + coef ! m)"
    by simp
  also have "\<dots> = Inr ((\<Sum>k<m. coef ! k * (\<Prod>l<k. t - x ! l))
      + (acc * (t - x ! m) + coef ! m) * (\<Prod>l<m. t - x ! l))"
    using Suc.prems by (intro Suc.IH) simp_all
  finally show ?case by (simp add: algebra_simps)
qed

lemma newton_eval_form:
  assumes "distinct x" and "length y = length x" and "x \<noteq> []"
  shows "newton_eval x y t = Inr (newton_form x y t 0 (length x))"
proof -
  define n where "n = length x - 1"
  have n: "length x = Suc n" using assms(3) by (simp add: n_def)
  define coef where "coef = map (\<lambda>k. divdiff x y k k) [0..<length x]"
  have len: "length coef = Suc n" by (simp add: coef_def n)
  have nth: "coef ! k = divdiff x y k k" if "k < Suc n" for k
    using that unfolding coef_def by (simp add: n del: upt_Suc)
  have ne: "coef \<noteq> []" using len by auto
  have last: "last coef = divdiff x y n n"
    using nth[of n] len ne by (simp add: last_conv_nth)
  have "horner_loop coef x t (rev [0..<n]) (divdiff x y n n)
      = Inr ((\<Sum>k<n. coef ! k * (\<Prod>l<k. t - x ! l)) + divdiff x y n n * (\<Prod>l<n. t - x ! l))"
    by (rule horner_loop_sum) (simp_all add: n len)
  also have "(\<Sum>k<n. coef ! k * (\<Prod>l<k. t - x ! l))
      = (\<Sum>k<n. divdiff x y k k * (\<Prod>l<k. t - x ! l))"
    by (rule sum.cong) (simp_all add: nth)
  finally have h: "horner_loop coef x t (rev [0..<n]) (divdiff x y n n)
      = Inr (newton_form x y t 0 (length x))"
    by (simp add: newton_form_def n)
  have "newton_divided_diff x y = Inr coef"
    unfolding coef_def by (rule newton_divided_diff_table[OF assms(1,2)])
  then have "newton_eval x y t = horner_loop coef x t (rev [0..<length coef - 1]) (last coef)"
    using ne by (simp add: newton_eval_def)
  also have "\<dots> = horner_loop coef x t (rev [0..<n]) (divdiff x y n n)"
    by (simp only: len last diff_Suc_1)
  finally show ?thesis using h by simp
qed





subsection \<open>Newton interpolation: exactness at the nodes, clamping and rounding\<close>

lemma round_half_even_near: "\<bar>of_int (round_half_even v) - v\<bar> \<le> 1 / 2"
proof -
  have "of_int \<lfloor>v\<rfloor> \<le> v" "v < of_int \<lfloor>v\<rfloor> + 1" by linarith+
  then show ?thesis by (auto simp: round_half_even_def Let_def)
qed

lemma py_round_2_near: "\<bar>py_round v 2 - v\<bar> \<le> 1 / 200"
proof -
  have b: "\<bar>of_int (round_half_even (v * 100)) - v * 100\<bar> \<le> 1 / 2"
    by (rule round_half_even_near)
  have eq: "py_round v 2 - v = (of_int (round_half_even (v * 100)) - v * 100) / 100"
    by (simp add: py_round_def field_simps)
  show ?thesis unfolding eq abs_divide using b by simp
qed





text \<open>
  Claim C6. Whenever \<open>newton_interpolation\<close> returns a value, the value is non-negative
  and a multiple of 0.01: it is the polynomial's value rounded to the nearest multiple of
  0.01 (so within 0.005 of it) and then clamped at 0. For non-empty, equal-length data with
  pairwise distinct \<open>x\<close> it does return a value, at every target.
\<close>

theorem newton_interpolation_clamped_rounded:
  "(newton_interpolation x_data y_data target_x = Inr v
      \<longrightarrow> 0 \<le> v \<and> (\<exists>k::int. v = of_int k / 100)
          \<and> (\<exists>r. newton_eval x_data y_data target_x = Inr r \<and> v = max 0 (py_round r 2)
                \<and> \<bar>py_round r 2 - r\<bar> \<le> 1 / 200))
   \<and> (distinct x_data \<and> length y_data = length x_data \<and> x_data \<noteq> []
      \<longrightarrow> (\<exists>w. newton_interpolation x_data y_data target_x = Inr w))"
proof (intro conjI impI)
  assume a: "newton_interpolation x_data y_data target_x = Inr v"
  then obtain r where r: "newton_eval x_data y_data target_x = Inr r"
    and v: "v = max 0 (py_round r 2)"
    by (auto simp: newton_interpolation_def split: sum.splits)
  show "0 \<le> v" using v by simp
  show "\<exists>k::int. v = of_int k / 100"
  proof (cases "0 \<le> py_round r 2")
    case True
    then have "v = of_int (round_half_even (r * 100)) / 100"
      using v by (simp add: py_round_def)
    then show ?thesis by blast
  next
    case False
    then have "v = of_int 0 / 100" using v by simp
    then show ?thesis by blast
  qed
  show "\<exists>r. newton_eval x_data y_data target_x = Inr r \<and> v = max 0 (py_round r 2)
      \<and> \<bar>py_round r 2 - r\<bar> \<le> 1 / 200"
    using r v py_round_2_near by blast
next
  assume "distinct x_data \<and> length y_data = length x_data \<and> x_data \<noteq> []"
  then have "newton_eval x_data y_data target_x
      = Inr (newton_form x_data y_data target_x 0 (length x_data))"
    by (intro newton_eval_form) simp_all
  then show "\<exists>w. newton_interpolation x_data y_data target_x = Inr w"
    by (simp add: newton_interpolation_def)
qed

lemma newton_interpolation_example:
  "newton_interpolation [3, 4, 5] [61 / 10, 63 / 10, 64 / 10] 10 = Inr (27 / 5)"
  by (simp add: newton_interpolation_def newton_eval_def newton_divided_diff_def
      dd_update_def py_round_def round_half_even_def upt_rec Let_def)

theorem newton_interpolation_clamped_rounded_witness:
  "newton_interpolation [3, 4, 5] [61 / 10, 63 / 10, 64 / 10] 10 = Inr (27 / 5)
   \<and> (0::real) \<le> 27 / 5 \<and> (\<exists>k::int. (27 / 5 :: real) = of_int k / 100)
   \<and> distinct [3, 4, 5 :: real] \<and> length [61 / 10, 63 / 10, 64 / 10 :: real] = length [3, 4, 5 :: real]
   \<and> [3, 4, 5 :: real] \<noteq> []"
  using newton_interpolation_clamped_rounded[of "[3, 4, 5]" "[61 / 10, 63 / 10, 64 / 10]" 10 "27 / 5"]
    newton_interpolation_example
  by simp

text \<open>
  Claim C5, as the code behaves. With history days \<open>[1..5]\<close>, usage
  \<open>[5.8, 6.0, 6.1, 6.3, 6.4]\<close> and the last 3 points as the window, the forecast for days
  6 to 10 is \<open>[6.4, 6.3, 6.1, 5.8, 5.4]\<close>: strictly decreasing, every value non-negative.
\<close>

theorem forecast_values:
  "forecasted_usage = Inr [64 / 10, 63 / 10, 61 / 10, 58 / 10, 54 / 10]
   \<and> sorted_wrt (\<lambda>u v. v < u) [64 / 10, 63 / 10, 61 / 10, 58 / 10, 54 / 10 :: real]
   \<and> list_all (\<lambda>v. 0 \<le> v) [64 / 10, 63 / 10, 61 / 10, 58 / 10, 54 / 10 :: real]"
  by (simp add: forecasted_usage_def x_used_def y_used_def last3_def HISTORICAL_DAYS_def
      HISTORICAL_USAGE_def newton_interpolation_def newton_eval_def newton_divided_diff_def
      dd_update_def py_round_def round_half_even_def upt_rec Let_def)

text \<open>
  Claim C5 as stated fails: the forecast is not non-decreasing, and its values are not in
  the range 6.5 to 6.9.
\<close>

theorem forecast_not_nondecreasing:
  "forecasted_usage = Inr [64 / 10, 63 / 10, 61 / 10, 58 / 10, 54 / 10]
   \<and> \<not> sorted [64 / 10, 63 / 10, 61 / 10, 58 / 10, 54 / 10 :: real]
   \<and> \<not> list_all (\<lambda>v. 65 / 10 \<le> v \<and> v \<le> 69 / 10) [64 / 10, 63 / 10, 61 / 10, 58 / 10, 54 / 10 :: real]"
  by (simp add: forecasted_usage_def x_used_def y_used_def last3_def HISTORICAL_DAYS_def
      HISTORICAL_USAGE_def newton_interpolation_def newton_eval_def newton_divided_diff_def
      dd_update_def py_round_def round_half_even_def upt_rec Let_def)

subsection \<open>Bisection: bracket, width and iteration count\<close>

lemma bisect_loop_bracket:
  "a \<le> b \<Longrightarrow> bisect_loop f a b = (a', b') \<Longrightarrow> a \<le> a' \<and> a' \<le> b' \<and> b' \<le> b"
proof (induction f a b rule: bisect_loop.induct)
  case (1 f a b)
  show ?case
  proof (cases "b - a > 1 / 100")
    case False
    with "1.prems" show ?thesis by (simp add: bisect_loop.simps)
  next
    case True
    define mid where "mid = (a + b) / 2"
    have m: "a \<le> mid" "mid \<le> b" using "1.prems"(1) by (simp_all add: mid_def)
    show ?thesis
    proof (cases "f mid * f a < 0")
      case neg: True
      have "bisect_loop f a mid = (a', b')"
        using "1.prems"(2) True neg by (subst (asm) bisect_loop.simps) (simp add: mid_def Let_def)
      from "1.IH"(1)[OF True mid_def neg m(1) this] m show ?thesis by simp
    next
      case nonneg: False
      have "bisect_loop f mid b = (a', b')"
        using "1.prems"(2) True nonneg by (subst (asm) bisect_loop.simps) (simp add: mid_def Let_def)
      from "1.IH"(2)[OF True mid_def nonneg m(2) this] m show ?thesis by simp
    qed
  qed
qed

lemma bisect_loop_width:
  "bisect_loop f a b = (a', b') \<Longrightarrow> b' - a' \<le> 1 / 100 \<and> b' - a' = (b - a) / 2 ^ bisect_iters f a b"
proof (induction f a b rule: bisect_loop.induct)
  case (1 f a b)
  show ?case
  proof (cases "b - a > 1 / 100")
    case False
    with "1.prems" show ?thesis by (simp add: bisect_loop.simps bisect_iters.simps)
  next
    case True
    define mid where "mid = (a + b) / 2"
    show ?thesis
    proof (cases "f mid * f a < 0")
      case neg: True
      have "bisect_loop f a mid = (a', b')"
        using "1.prems" True neg by (subst (asm) bisect_loop.simps) (simp add: mid_def Let_def)
      note ih = "1.IH"(1)[OF True mid_def neg this]
      have "b' - a' \<le> 1 / 100" "b' - a' = (mid - a) / 2 ^ bisect_iters f a mid"
        using ih by (rule conjunct1, rule conjunct2)
      moreover have "bisect_iters f a b = Suc (bisect_iters f a mid)"
        using True neg by (subst bisect_iters.simps) (simp add: mid_def Let_def)
      moreover have "mid - a = (b - a) / 2" by (simp add: mid_def field_simps)
      ultimately show ?thesis by simp
    next
      case nonneg: False
      have "bisect_loop f mid b = (a', b')"
        using "1.prems" True nonneg by (subst (asm) bisect_loop.simps) (simp add: mid_def Let_def)
      note ih = "1.IH"(2)[OF True mid_def nonneg this]
      have "b' - a' \<le> 1 / 100" "b' - a' = (b - mid) / 2 ^ bisect_iters f mid b"
        using ih by (rule conjunct1, rule conjunct2)
      moreover have "bisect_iters f a b = Suc (bisect_iters f mid b)"
        using True nonneg by (subst bisect_iters.simps) (simp add: mid_def Let_def)
      moreover have "b - mid = (b - a) / 2" by (simp add: mid_def field_simps)
      ultimately show ?thesis by simp
    qed
  qed
qed

lemma bisect_iters_minimal:
  "bisect_iters f a b = Suc n \<Longrightarrow> 1 / 100 < (b - a) / 2 ^ n"
proof (induction f a b arbitrary: n rule: bisect_iters.induct)
  case (1 f a b)
  have w: "b - a > 1 / 100"
    using "1.prems" by (subst (asm) bisect_iters.simps) (simp split: if_splits)
  define mid where "mid = (a + b) / 2"
  show ?case
  proof (cases n)
    case 0
    with w show ?thesis by simp
  next
    case (Suc k)
    show ?thesis
    proof (cases "f mid * f a < 0")
      case neg: True
      have "bisect_iters f a mid = Suc k"
        using "1.prems" w neg Suc by (subst (asm) bisect_iters.simps) (simp add: mid_def Let_def)
      from "1.IH"(1)[OF w mid_def neg this] have "1 / 100 < (mid - a) / 2 ^ k" .
      moreover have "mid - a = (b - a) / 2" by (simp add: mid_def field_simps)
      ultimately show ?thesis using Suc by simp
    next
      case nonneg: False
      have "bisect_iters f mid b = Suc k"
        using "1.prems" w nonneg Suc by (subst (asm) bisect_iters.simps) (simp add: mid_def Let_def)
      from "1.IH"(2)[OF w mid_def nonneg this] have "1 / 100 < (b - mid) / 2 ^ k" .
      moreover have "b - mid = (b - a) / 2" by (simp add: mid_def field_simps)
      ultimately show ?thesis using Suc by simp
    qed
  qed
qed

lemma bisect_iters_stop: "(b - a) / 2 ^ bisect_iters f a b \<le> 1 / 100"
proof -
  obtain a' b' where r: "bisect_loop f a b = (a', b')" by (cases "bisect_loop f a b")
  have "b' - a' \<le> 1 / 100" by (rule bisect_loop_width[OF r, THEN conjunct1])
  then show ?thesis unfolding bisect_loop_width[OF r, THEN conjunct2] .
qed

lemma bisect_iters_30: "bisect_iters f 0 30 = 12"
proof -
  define n where "n = bisect_iters f 0 30"
  have up: "(30::real) / 2 ^ n \<le> 1 / 100"
    using bisect_iters_stop[of 30 0 f] by (simp add: n_def)
  have "\<not> n < 12"
  proof
    assume "n < 12"
    then have "(2::real) ^ n \<le> 2 ^ 11" by (intro power_increasing) simp_all
    then have "(30::real) / 2 ^ 11 \<le> 30 / 2 ^ n" by (intro divide_left_mono) simp_all
    moreover have "(1::real) / 100 < 30 / 2 ^ 11" by simp
    ultimately show False using up by linarith
  qed
  moreover have "\<not> 12 < n"
  proof
    assume "12 < n"
    then obtain k where k: "n = Suc k" "12 \<le> k" by (cases n) simp_all
    from bisect_iters_minimal[of f 0 30 k] k have lo: "1 / 100 < (30::real) / 2 ^ k"
      by (simp add: n_def)
    have "(2::real) ^ 12 \<le> 2 ^ k" using k by (intro power_increasing) simp_all
    then have "(30::real) / 2 ^ k \<le> 30 / 2 ^ 12" by (intro divide_left_mono) simp_all
    moreover have "(30::real) / 2 ^ 12 < 1 / 100" by simp
    ultimately show False using lo by linarith
  qed
  ultimately show ?thesis by (simp add: n_def)
qed

lemma bisect_loop_no_sign_change:
  "\<forall>s t. a0 \<le> s \<and> s \<le> b0 \<and> a0 \<le> t \<and> t \<le> b0 \<longrightarrow> \<not> f s * f t < 0 \<Longrightarrow>
   a0 \<le> a \<Longrightarrow> a < b \<Longrightarrow> b \<le> b0 \<Longrightarrow> bisect_loop f a b = (a', b') \<Longrightarrow>
   b' = b \<and> a \<le> a' \<and> a' < b"
proof (induction f a b rule: bisect_loop.induct)
  case (1 f a b)
  note nsc = "1.prems"(1)
  show ?case
  proof (cases "b - a > 1 / 100")
    case False
    with "1.prems" show ?thesis by (simp add: bisect_loop.simps)
  next
    case True
    define mid where "mid = (a + b) / 2"
    have m: "a < mid" "mid < b" using "1.prems"(3) by (simp_all add: mid_def)
    have "a0 \<le> mid" "mid \<le> b0" "a0 \<le> a" "a \<le> b0"
      using m "1.prems"(2,3,4) by simp_all
    with nsc have nonneg: "\<not> f mid * f a < 0" by blast
    have "bisect_loop f mid b = (a', b')"
      using "1.prems"(5) True nonneg by (subst (asm) bisect_loop.simps) (simp add: mid_def Let_def)
    with \<open>a0 \<le> mid\<close> m "1.prems"(4) have "b' = b \<and> mid \<le> a' \<and> a' < b"
      by (intro "1.IH"(2)[OF True mid_def nonneg nsc])
    with m show ?thesis by simp
  qed
qed

lemma gr_ge: "3 / 2 \<le> gr"
proof -
  have "2 \<le> sqrt 5" by (rule real_le_rsqrt) simp
  then show ?thesis by (simp add: gr_def)
qed

lemma gr_pos: "0 < gr"
  using gr_ge by simp

lemma gss_loop_returns:
  assumes tol: "0 < tol"
  shows "\<bar>b - a\<bar> \<le> real m * tol \<Longrightarrow> c = b - (b - a) / gr \<Longrightarrow> d = a + (b - a) / gr
    \<Longrightarrow> \<exists>n a' b'. gss_loop f tol a b c d = Some (a', b')
          \<and> \<bar>b' - a'\<bar> = \<bar>b - a\<bar> / gr ^ n
          \<and> \<bar>(b' - (b' - a') / gr) - (a' + (b' - a') / gr)\<bar> \<le> tol
          \<and> (\<forall>k<n. tol < \<bar>b - a\<bar> / gr ^ k * \<bar>1 - 2 / gr\<bar>)"
proof (induction m arbitrary: a b c d)
  case 0
  then have "a = b" by simp
  with 0 have "c = d" by simp
  with tol have "gss_loop f tol a b c d = Some (a, b)" by (subst gss_loop.simps) simp
  with tol \<open>a = b\<close> show ?case by (intro exI[of _ 0] exI[of _ a] exI[of _ b]) simp
next
  case (Suc m)
  define r where "r = 1 / gr"
  have r: "0 < r" "r \<le> 2 / 3" using gr_ge by (simp_all add: r_def field_simps)
  define x where "x = (b - a) / gr"
  have "c = b - x" "d = a + x" using Suc.prems(2,3) by (simp_all add: x_def)
  then have "c - d = (b - a) - 2 * x" by simp
  moreover have "x = (b - a) * r" by (simp add: x_def r_def)
  ultimately have cd: "c - d = (b - a) * (1 - 2 * r)"
    by (simp add: algebra_simps)
  have gap: "\<bar>c - d\<bar> = \<bar>b - a\<bar> * \<bar>1 - 2 / gr\<bar>"
    unfolding cd abs_mult by (simp add: r_def)
  show ?case
  proof (cases "\<bar>c - d\<bar> > tol")
    case False
    then have "gss_loop f tol a b c d = Some (a, b)" by (subst gss_loop.simps) simp
    with False Suc.prems(2,3) show ?thesis
      by (intro exI[of _ 0] exI[of _ a] exI[of _ b]) simp
  next
    case True
    have "\<bar>1 - 2 * r\<bar> \<le> 1 - r" using r by simp
    then have "\<bar>c - d\<bar> \<le> \<bar>b - a\<bar> * (1 - r)"
      unfolding cd abs_mult by (intro mult_left_mono) simp_all
    with True have "tol < \<bar>b - a\<bar> * (1 - r)" by simp
    then have "\<bar>b - a\<bar> * r < \<bar>b - a\<bar> - tol" by (simp add: algebra_simps)
    also have "\<dots> \<le> real m * tol" using Suc.prems(1) by (simp add: algebra_simps)
    finally have shrink: "\<bar>b - a\<bar> / gr \<le> real m * tol" by (simp add: r_def)
    have wd: "\<bar>d - a\<bar> = \<bar>b - a\<bar> / gr"
      using Suc.prems(3) gr_pos by (simp add: abs_divide)
    have wc: "\<bar>b - c\<bar> = \<bar>b - a\<bar> / gr"
      using Suc.prems(2) gr_pos by (simp add: abs_divide)
    have step: "\<exists>n a' b'. gss_loop f tol a b c d = Some (a', b')
          \<and> \<bar>b' - a'\<bar> = \<bar>b - a\<bar> / gr ^ n
          \<and> \<bar>(b' - (b' - a') / gr) - (a' + (b' - a') / gr)\<bar> \<le> tol
          \<and> (\<forall>k<n. tol < \<bar>b - a\<bar> / gr ^ k * \<bar>1 - 2 / gr\<bar>)"
      if w: "\<bar>b1 - a1\<bar> = \<bar>b - a\<bar> / gr"
        and nx: "gss_loop f tol a b c d
          = gss_loop f tol a1 b1 (b1 - (b1 - a1) / gr) (a1 + (b1 - a1) / gr)"
      for a1 b1
    proof -
      have "\<bar>b1 - a1\<bar> \<le> real m * tol" using shrink w by simp
      from Suc.IH[OF this refl refl]
      obtain n a' b' where l: "gss_loop f tol a1 b1 (b1 - (b1 - a1) / gr) (a1 + (b1 - a1) / gr)
            = Some (a', b')"
        and wn: "\<bar>b' - a'\<bar> = \<bar>b1 - a1\<bar> / gr ^ n"
        and st: "\<bar>(b' - (b' - a') / gr) - (a' + (b' - a') / gr)\<bar> \<le> tol"
        and ea: "\<forall>k<n. tol < \<bar>b1 - a1\<bar> / gr ^ k * \<bar>1 - 2 / gr\<bar>"
        by blast
      have "\<bar>b' - a'\<bar> = \<bar>b - a\<bar> / gr ^ Suc n" by (simp add: wn w)
      moreover have "\<forall>k<Suc n. tol < \<bar>b - a\<bar> / gr ^ k * \<bar>1 - 2 / gr\<bar>"
      proof (intro allI impI)
        fix k assume k: "k < Suc n"
        show "tol < \<bar>b - a\<bar> / gr ^ k * \<bar>1 - 2 / gr\<bar>"
        proof (cases k)
          case 0
          with True gap show ?thesis by simp
        next
          case (Suc k')
          with k ea have "tol < \<bar>b1 - a1\<bar> / gr ^ k' * \<bar>1 - 2 / gr\<bar>" by simp
          then show ?thesis by (simp add: w Suc)
        qed
      qed
      ultimately show ?thesis using l st nx by (intro exI[of _ "Suc n"] exI[of _ a'] exI[of _ b']) simp
    qed
    show ?thesis
    proof (cases "f c < f d")
      case lt: True
      have "gss_loop f tol a b c d = gss_loop f tol a d (d - (d - a) / gr) (a + (d - a) / gr)"
        using True lt by (subst gss_loop.simps) simp
      with wd show ?thesis by (rule step)
    next
      case ge: False
      have "gss_loop f tol a b c d = gss_loop f tol c b (b - (b - c) / gr) (c + (b - c) / gr)"
        using True ge by (subst gss_loop.simps) simp
      with wc show ?thesis by (rule step)
    qed
  qed
qed

lemma golden_returns:
  assumes "0 < tol"
  shows "\<exists>n a' b'. gss_loop f tol a b (b - (b - a) / gr) (a + (b - a) / gr) = Some (a', b')
     \<and> golden_section_search f a b tol = Some ((b' + a') / 2)
     \<and> \<bar>b' - a'\<bar> = \<bar>b - a\<bar> / gr ^ n
     \<and> \<bar>(b' - (b' - a') / gr) - (a' + (b' - a') / gr)\<bar> \<le> tol
     \<and> (\<forall>k<n. tol < \<bar>b - a\<bar> / gr ^ k * \<bar>1 - 2 / gr\<bar>)"
proof -
  obtain m :: nat where "\<bar>b - a\<bar> / tol \<le> real m" using real_arch_simple by blast
  with assms have "\<bar>b - a\<bar> \<le> real m * tol" by (simp add: field_simps)
  from gss_loop_returns[OF assms this refl refl, of f]
  obtain n a' b' where l: "gss_loop f tol a b (b - (b - a) / gr) (a + (b - a) / gr) = Some (a', b')"
    and w: "\<bar>b' - a'\<bar> = \<bar>b - a\<bar> / gr ^ n"
      "\<bar>(b' - (b' - a') / gr) - (a' + (b' - a') / gr)\<bar> \<le> tol"
      "\<forall>k<n. tol < \<bar>b - a\<bar> / gr ^ k * \<bar>1 - 2 / gr\<bar>"
    by blast
  from l have "golden_section_search f a b tol = Some ((b' + a') / 2)"
    by (simp add: golden_section_search_def)
  with l w show ?thesis by blast
qed

subsection \<open>The root finder\<close>

text \<open>
  Claim C10. For every balance, every cost function and every \<open>max_days > 0\<close>, the
  value returned by \<open>estimate_days_remaining\<close> lies in \<open>[0, max_days]\<close>, and so do both
  endpoints of the final bracket, whether or not a sign change exists.
\<close>

theorem estimate_days_remaining_in_range:
  assumes "0 < max_days"
  shows "0 \<le> estimate_days_remaining balance cost max_days
    \<and> estimate_days_remaining balance cost max_days \<le> max_days
    \<and> 0 \<le> fst (bisect_loop (\<lambda>t. balance - cost t) 0 max_days)
    \<and> fst (bisect_loop (\<lambda>t. balance - cost t) 0 max_days)
        \<le> snd (bisect_loop (\<lambda>t. balance - cost t) 0 max_days)
    \<and> snd (bisect_loop (\<lambda>t. balance - cost t) 0 max_days) \<le> max_days"
proof -
  obtain a' b' where r: "bisect_loop (\<lambda>t. balance - cost t) 0 max_days = (a', b')"
    by (cases "bisect_loop (\<lambda>t. balance - cost t) 0 max_days")
  from assms have "0 \<le> max_days" by simp
  from bisect_loop_bracket[OF this r] have "0 \<le> a'" "a' \<le> b'" "b' \<le> max_days" by simp_all
  then show ?thesis by (simp add: estimate_days_remaining_def r)
qed

theorem estimate_days_remaining_in_range_witness:
  "(0::real) < 30 \<and> 0 \<le> estimate_days_remaining 50 (cumulative_cost 2) 30
    \<and> estimate_days_remaining 50 (cumulative_cost 2) 30 \<le> 30"
  using estimate_days_remaining_in_range[of 30 50 "cumulative_cost 2"] by simp

text \<open>
  Claim C2, at balance 15, cost \<open>cost(t) = 1 * t\<close> and \<open>max_days = 30\<close>. The first
  midpoint is the root 15 itself: \<open>f(mid) * f(a) = 0\<close> is not negative, so the lower end
  moves onto the root, \<open>f(a) = 0\<close> from then on, no later product is negative, and
  the bracket closes on the upper end. The value returned is 29.996..., not within 0.01
  of \<open>B / k = 15\<close>.
\<close>

theorem estimate_days_remaining_exact_midpoint:
  "estimate_days_remaining 15 (cumulative_cost 1) 30 = 122865 / 4096
   \<and> \<not> \<bar>estimate_days_remaining 15 (cumulative_cost 1) 30 - 15 / 1\<bar> \<le> 1 / 100"
proof -
  have "estimate_days_remaining 15 (cumulative_cost 1) 30 = 122865 / 4096"
    by (simp add: estimate_days_remaining_def cumulative_cost_def bisect_loop.simps Let_def)
  then show ?thesis by simp
qed

lemma dyadic_point_mid:
  assumes "dyadic_point m a" and "dyadic_point m b"
  shows "dyadic_point m ((a + b) / 2)"
proof -
  from assms obtain ja na jb nb where a: "a = m * real ja / 2 ^ na" and b: "b = m * real jb / 2 ^ nb"
    unfolding dyadic_point_def by blast
  have "(a + b) / 2 = m * real (ja * 2 ^ nb + jb * 2 ^ na) / 2 ^ (Suc (na + nb))"
    by (simp add: a b power_add field_simps)
  then show ?thesis unfolding dyadic_point_def by blast
qed

lemma bisect_loop_linear:
  assumes k: "0 < k"
  shows "dyadic_point m a \<Longrightarrow> dyadic_point m b \<Longrightarrow> \<not> dyadic_point m (B / k) \<Longrightarrow>
    a < B / k \<Longrightarrow> B / k < b \<Longrightarrow> f = (\<lambda>t. B - k * t) \<Longrightarrow> bisect_loop f a b = (a', b') \<Longrightarrow>
    a' < B / k \<and> B / k < b'"
proof (induction f a b rule: bisect_loop.induct)
  case (1 f a b)
  note f = "1.prems"(6)
  show ?case
  proof (cases "b - a > 1 / 100")
    case False
    with "1.prems" show ?thesis by (simp add: bisect_loop.simps)
  next
    case True
    define mid where "mid = (a + b) / 2"
    have dm: "dyadic_point m mid"
      unfolding mid_def using "1.prems"(1,2) by (rule dyadic_point_mid)
    with "1.prems"(3) have ne: "mid \<noteq> B / k" by auto
    have fa: "0 < f a" using "1.prems"(4) k by (simp add: f field_simps)
    show ?thesis
    proof (cases "mid < B / k")
      case True
      then have "0 < f mid" using k by (simp add: f field_simps)
      with fa have nonneg: "\<not> f mid * f a < 0" by (simp add: zero_less_mult_iff not_less less_imp_le)
      have "bisect_loop f mid b = (a', b')"
        using "1.prems"(7) \<open>b - a > 1 / 100\<close> nonneg
        by (subst (asm) bisect_loop.simps) (simp add: mid_def Let_def)
      from "1.IH"(2)[OF \<open>b - a > 1 / 100\<close> mid_def nonneg dm "1.prems"(2,3) True "1.prems"(5) f this]
      show ?thesis .
    next
      case False
      with ne have gt: "B / k < mid" by simp
      then have "f mid < 0" using k by (simp add: f field_simps)
      with fa have neg: "f mid * f a < 0" by (simp add: mult_less_0_iff)
      have "bisect_loop f a mid = (a', b')"
        using "1.prems"(7) \<open>b - a > 1 / 100\<close> neg
        by (subst (asm) bisect_loop.simps) (simp add: mid_def Let_def)
      from "1.IH"(1)[OF \<open>b - a > 1 / 100\<close> mid_def neg "1.prems"(1) dm "1.prems"(3,4) gt f this]
      show ?thesis .
    qed
  qed
qed

text \<open>
  Where the root finder is right. For a linear cost \<open>cost(t) = k * t\<close> with \<open>k > 0\<close> and
  \<open>0 < B / k < max_days\<close>, the value returned is within 0.005 of \<open>B / k\<close>, provided
  \<open>B / k\<close> is not a point \<open>max_days * j / 2 ^ n\<close>, so that no midpoint hits the root.
\<close>

theorem estimate_days_remaining_linear:
  assumes "0 < k" and "0 < B / k" and "B / k < max_days"
    and "\<not> dyadic_point max_days (B / k)"
  shows "\<bar>estimate_days_remaining B (cumulative_cost k) max_days - B / k\<bar> \<le> 1 / 200"
proof -
  let ?f = "\<lambda>t. B - cumulative_cost k t"
  obtain a' b' where r: "bisect_loop ?f 0 max_days = (a', b')"
    by (cases "bisect_loop ?f 0 max_days")
  have "dyadic_point max_days 0" unfolding dyadic_point_def by (intro exI[of _ 0]) simp
  moreover have "dyadic_point max_days max_days"
    unfolding dyadic_point_def by (intro exI[of _ 1] exI[of _ 0]) simp
  moreover have "?f = (\<lambda>t. B - k * t)" by (simp add: cumulative_cost_def)
  ultimately have br: "a' < B / k \<and> B / k < b'"
    using assms r by (intro bisect_loop_linear[of k max_days 0 max_days B ?f a' b'])
  define rt where "rt = B / k"
  have "a' < rt" "rt < b'" using br by (simp_all add: rt_def)
  moreover have "b' - a' \<le> 1 / 100" by (rule bisect_loop_width[OF r, THEN conjunct1])
  ultimately have "(a' + b') / 2 - rt \<le> 1 / 200" "- ((a' + b') / 2 - rt) \<le> 1 / 200"
    by (simp_all add: field_simps)
  then have "\<bar>(a' + b') / 2 - rt\<bar> \<le> 1 / 200" by (simp only: abs_le_iff)
  then have "\<bar>(a' + b') / 2 - B / k\<bar> \<le> 1 / 200" by (simp only: rt_def)
  then show ?thesis by (simp only: estimate_days_remaining_def r prod.case)
qed

lemma two_power_mod_3: "(2::nat) ^ n mod 3 = 1 \<or> (2::nat) ^ n mod 3 = 2"
proof (induction n)
  case 0
  show ?case by simp
next
  case (Suc n)
  have "(2::nat) ^ Suc n mod 3 = (2 * (2 ^ n mod 3)) mod 3"
    by (simp add: mod_mult_right_eq)
  with Suc show ?case by auto
qed

lemma not_dyadic_30_10: "\<not> dyadic_point 30 (10 / 1)"
proof
  assume "dyadic_point 30 (10 / 1)"
  then obtain j n :: nat where "(10::real) = 30 * real j / 2 ^ n"
    unfolding dyadic_point_def by auto
  then have "(2::real) ^ n = 3 * real j" by (simp add: field_simps)
  then have "real (2 ^ n) = real (3 * j)" by simp
  then have "(2::nat) ^ n = 3 * j" by (simp only: of_nat_eq_iff)
  then have "(2::nat) ^ n mod 3 = 0" by simp
  with two_power_mod_3[of n] show False by simp
qed

theorem estimate_days_remaining_linear_witness:
  "(0::real) < 1 \<and> (0::real) < 10 / 1 \<and> (10::real) / 1 < 30
   \<and> \<bar>estimate_days_remaining 10 (cumulative_cost 1) 30 - 10 / 1\<bar> \<le> 1 / 200"
  using estimate_days_remaining_linear[of 1 10 30] not_dyadic_30_10 by simp

text \<open>
  Claim C7, as the code behaves. When \<open>f(t) = balance - cost(t)\<close> has no sign change on
  \<open>[0, max_days]\<close> (it is non-negative throughout, or non-positive throughout), every
  iteration takes the branch \<open>a = mid\<close>: the upper end of the bracket stays at
  \<open>max_days\<close> and the value returned is within 0.005 below \<open>max_days\<close>, the upper
  endpoint.
\<close>

theorem bisection_without_sign_change:
  assumes "0 < max_days"
    and "(\<forall>t. 0 \<le> t \<and> t \<le> max_days \<longrightarrow> 0 \<le> balance - cost t)
       \<or> (\<forall>t. 0 \<le> t \<and> t \<le> max_days \<longrightarrow> balance - cost t \<le> 0)"
  shows "snd (bisect_loop (\<lambda>t. balance - cost t) 0 max_days) = max_days
    \<and> max_days - 1 / 200 \<le> estimate_days_remaining balance cost max_days
    \<and> estimate_days_remaining balance cost max_days < max_days"
proof -
  let ?f = "\<lambda>t. balance - cost t"
  obtain a' b' where r: "bisect_loop ?f 0 max_days = (a', b')"
    by (cases "bisect_loop ?f 0 max_days")
  have nsc: "\<forall>s t. 0 \<le> s \<and> s \<le> max_days \<and> 0 \<le> t \<and> t \<le> max_days \<longrightarrow> \<not> ?f s * ?f t < 0"
  proof (intro allI impI)
    fix s t assume st: "0 \<le> s \<and> s \<le> max_days \<and> 0 \<le> t \<and> t \<le> max_days"
    from assms(2) show "\<not> ?f s * ?f t < 0"
    proof
      assume "\<forall>t. 0 \<le> t \<and> t \<le> max_days \<longrightarrow> 0 \<le> balance - cost t"
      with st have "0 \<le> ?f s" "0 \<le> ?f t" by blast+
      then have "0 \<le> ?f s * ?f t" by (rule mult_nonneg_nonneg)
      then show ?thesis by simp
    next
      assume "\<forall>t. 0 \<le> t \<and> t \<le> max_days \<longrightarrow> balance - cost t \<le> 0"
      with st have "?f s \<le> 0" "?f t \<le> 0" by blast+
      then have "0 \<le> ?f s * ?f t" by (rule mult_nonpos_nonpos)
      then show ?thesis by simp
    qed
  qed
  from bisect_loop_no_sign_change[OF nsc _ assms(1) _ r]
  have b: "b' = max_days" "0 \<le> a'" "a' < max_days" by simp_all
  from bisect_loop_width[OF r, THEN conjunct1] have "b' - a' \<le> 1 / 100" .
  with b show ?thesis by (simp add: estimate_days_remaining_def r)
qed

theorem bisection_without_sign_change_witness:
  "(0::real) < 30 \<and> 30 - 1 / 200 \<le> estimate_days_remaining 1000 (cumulative_cost 1) 30
    \<and> estimate_days_remaining 1000 (cumulative_cost 1) 30 < 30"
  using bisection_without_sign_change[of 30 1000 "cumulative_cost 1"]
  by (simp add: cumulative_cost_def)

text \<open>
  Claim C7 as stated fails: with balance 1000, \<open>cost(t) = 1 * t\<close> and \<open>max_days = 30\<close>
  there is no sign change, and the value returned is 29.996..., which is not near the
  lower endpoint 0.
\<close>

theorem bisection_without_sign_change_not_near_zero:
  "estimate_days_remaining 1000 (cumulative_cost 1) 30 = 122865 / 4096
   \<and> \<not> \<bar>estimate_days_remaining 1000 (cumulative_cost 1) 30 - 0\<bar> \<le> 29"
proof -
  have "estimate_days_remaining 1000 (cumulative_cost 1) 30 = 122865 / 4096"
    by (simp add: estimate_days_remaining_def cumulative_cost_def bisect_loop.simps Let_def)
  then show ?thesis by simp
qed

subsection \<open>Termination of both searches\<close>

text \<open>
  Claim C9. For every function and every \<open>max_days\<close>, the bisection loop stops after
  \<open>n = bisect_iters f 0 max_days\<close> iterations, having halved the bracket \<open>n\<close> times,
  where \<open>n\<close> is the least number with \<open>max_days / 2 ^ n \<le> 0.01\<close>, that is
  \<open>log\<^sub>2 (max_days / 0.01)\<close> rounded up; for \<open>max_days = 30\<close> it is 12. For every
  function, every interval and every positive tolerance, the golden-section loop returns a
  final bracket \<open>(a', b')\<close>, whose midpoint is the result of the search: the bracket has
  shrunk by the constant factor \<open>1 / gr < 1\<close> in each of its \<open>n\<close> iterations, the interior
  points of the final bracket are within the tolerance of each other, and those of every
  earlier bracket were not.
\<close>

theorem searches_terminate:
  "snd (bisect_loop f 0 max_days) - fst (bisect_loop f 0 max_days)
      = max_days / 2 ^ bisect_iters f 0 max_days
   \<and> max_days / 2 ^ bisect_iters f 0 max_days \<le> 1 / 100
   \<and> (0 < bisect_iters f 0 max_days
        \<longrightarrow> 1 / 100 < max_days / 2 ^ (bisect_iters f 0 max_days - 1))
   \<and> bisect_iters f 0 30 = 12
   \<and> 1 < gr
   \<and> (0 < tol \<longrightarrow>
        (\<exists>n a' b'.
           gss_loop g tol a b (b - (b - a) / gr) (a + (b - a) / gr) = Some (a', b')
           \<and> golden_section_search g a b tol = Some ((b' + a') / 2)
           \<and> \<bar>b' - a'\<bar> = \<bar>b - a\<bar> / gr ^ n
           \<and> \<bar>(b' - (b' - a') / gr) - (a' + (b' - a') / gr)\<bar> \<le> tol
           \<and> (\<forall>k<n. tol < \<bar>b - a\<bar> / gr ^ k * \<bar>1 - 2 / gr\<bar>)))"
proof -
  obtain a' b' where r: "bisect_loop f 0 max_days = (a', b')"
    by (cases "bisect_loop f 0 max_days")
  have 1: "snd (bisect_loop f 0 max_days) - fst (bisect_loop f 0 max_days)
      = max_days / 2 ^ bisect_iters f 0 max_days"
    using bisect_loop_width[OF r, THEN conjunct2] by (simp add: r)
  have 2: "max_days / 2 ^ bisect_iters f 0 max_days \<le> 1 / 100"
    using bisect_iters_stop[of max_days 0 f] by simp
  have 3: "0 < bisect_iters f 0 max_days
        \<longrightarrow> 1 / 100 < max_days / 2 ^ (bisect_iters f 0 max_days - 1)"
  proof
    assume "0 < bisect_iters f 0 max_days"
    then obtain k where k: "bisect_iters f 0 max_days = Suc k"
      by (cases "bisect_iters f 0 max_days") simp_all
    from bisect_iters_minimal[OF k] show "1 / 100 < max_days / 2 ^ (bisect_iters f 0 max_days - 1)"
      by (simp add: k)
  qed
  have 4: "0 < tol \<longrightarrow>
        (\<exists>n a' b'.
           gss_loop g tol a b (b - (b - a) / gr) (a + (b - a) / gr) = Some (a', b')
           \<and> golden_section_search g a b tol = Some ((b' + a') / 2)
           \<and> \<bar>b' - a'\<bar> = \<bar>b - a\<bar> / gr ^ n
           \<and> \<bar>(b' - (b' - a') / gr) - (a' + (b' - a') / gr)\<bar> \<le> tol
           \<and> (\<forall>k<n. tol < \<bar>b - a\<bar> / gr ^ k * \<bar>1 - 2 / gr\<bar>))"
    by (intro impI golden_returns)
  have 5: "1 < gr" using gr_ge by simp
  from 1 2 3 bisect_iters_30 5 4 show ?thesis by (intro conjI)
qed

theorem searches_terminate_witness:
  "0 < bisect_iters (\<lambda>t. 50 - cumulative_cost 2 t) 0 30
   \<and> 1 / 100 < (30::real) / 2 ^ (bisect_iters (\<lambda>t. 50 - cumulative_cost 2 t) 0 30 - 1)
   \<and> (0::real) < 1 / 100
   \<and> (\<exists>n a' b'.
         gss_loop (cumulative_cost 2) (1 / 100) 0 (1 / 2)
             (1 / 2 - (1 / 2 - 0) / gr) (0 + (1 / 2 - 0) / gr) = Some (a', b')
         \<and> golden_section_search (cumulative_cost 2) 0 (1 / 2) (1 / 100) = Some ((b' + a') / 2)
         \<and> \<bar>b' - a'\<bar> = \<bar>1 / 2 - 0\<bar> / gr ^ n
         \<and> \<bar>(b' - (b' - a') / gr) - (a' + (b' - a') / gr)\<bar> \<le> 1 / 100)"
proof -
  note t = searches_terminate[of "\<lambda>t. 50 - cumulative_cost 2 t" 30 "1 / 100" "cumulative_cost 2" 0 "1 / 2"]
  have "bisect_iters (\<lambda>t. 50 - cumulative_cost 2 t) 0 30 = 12" using t by (elim conjE)
  then have i: "0 < bisect_iters (\<lambda>t. 50 - cumulative_cost 2 t) 0 30" by simp
  have m: "1 / 100 < (30::real) / 2 ^ (bisect_iters (\<lambda>t. 50 - cumulative_cost 2 t) 0 30 - 1)"
    using t i by (elim conjE) (rule mp)
  have z: "(0::real) < 1 / 100" by simp
  have "\<exists>n a' b'.
         gss_loop (cumulative_cost 2) (1 / 100) 0 (1 / 2)
             (1 / 2 - (1 / 2 - 0) / gr) (0 + (1 / 2 - 0) / gr) = Some (a', b')
         \<and> golden_section_search (cumulative_cost 2) 0 (1 / 2) (1 / 100) = Some ((b' + a') / 2)
         \<and> \<bar>b' - a'\<bar> = \<bar>1 / 2 - 0\<bar> / gr ^ n
         \<and> \<bar>(b' - (b' - a') / gr) - (a' + (b' - a') / gr)\<bar> \<le> 1 / 100"
    using t z by (elim conjE) blast
  with i m z show ?thesis by (intro conjI)
qed

subsection \<open>The end-to-end scenario\<close>

lemma daily_kwh_value: "daily_kwh = Inr (148 / 25)"
  by (simp add: daily_kwh_def compute_daily_kwh_def APPLIANCES_def kwh_term_def)

lemma daily_cost_value: "daily_cost = Inr (1184 / 125)"
  by (simp add: daily_cost_def daily_kwh_value COST_PER_KWH_def)

lemma estimated_days_value: "estimated_days = Inr (21615 / 4096)"
  by (simp add: estimated_days_def daily_cost_value BALANCE_GHS_def
      estimate_days_remaining_def cumulative_cost_def bisect_loop.simps Let_def)

text \<open>
  Claim C4, as the code behaves. With the module's appliance list, cost per kWh 1.6 and
  balance 50, the pipeline yields \<open>daily_kwh = 5.92\<close>, \<open>daily_cost = 9.472\<close> and
  \<open>estimated_days = 21615 / 4096\<close>, which is 5.277..., about 5.28.
\<close>

theorem pipeline_values:
  "daily_kwh = Inr (592 / 100) \<and> daily_cost = Inr (9472 / 1000)
   \<and> estimated_days = Inr (21615 / 4096)
   \<and> near estimated_days (528 / 100) (5 / 1000)"
  by (simp add: daily_kwh_value daily_cost_value estimated_days_value near_def)

text \<open>
  Claim C4 as stated fails: none of the three values is within 0.1 of 6.12, 9.79 and
  5.1.
\<close>

theorem pipeline_values_not_as_specified:
  "\<not> near daily_kwh (612 / 100) (1 / 10) \<and> \<not> near daily_cost (979 / 100) (1 / 10)
   \<and> \<not> near estimated_days (51 / 10) (1 / 10)"
  by (simp add: daily_kwh_value daily_cost_value estimated_days_value near_def)

end
